theory Spec2Isabelle
  imports Main
begin

section \<open>The offline cache proxy of sw.js\<close>

text \<open>
  The source is a service worker of three event handlers:
  \<^verbatim>\<open>
  const CACHE='ghost-v1';
  const ASSETS=['ghost.html','manifest.json','icon.svg'];

  self.addEventListener('install',e=>{
    e.waitUntil(caches.open(CACHE).then(c=>c.addAll(ASSETS)));
    self.skipWaiting();
  });

  self.addEventListener('activate',e=>{
    e.waitUntil(caches.keys().then(ks=>Promise.all(ks.filter(k=>k!==CACHE).map(k=>caches.delete(k)))));
    self.clients.claim();
  });

  self.addEventListener('fetch',e=>{
    e.respondWith(caches.match(e.request).then(r=>r||fetch(e.request)));
  });
  \<close>
  The handlers are embedded as functions on an explicit world: the cache storage of the
  host and the trace of what the worker asked of the host. The calls the handlers make
  outward (cache storage, network, promises) belong to the host, not to the repository;
  they are modelled below, each marked as such.
\<close>

subsection \<open>Data\<close>

text \<open>
  A request identity is what the cache storage tells requests apart by, "effectively
  URLs"; a path of the Asset List names the request for it.
\<close>

type_synonym request = string

record response =
  status :: nat
  body :: string

datatype error =
    NetworkError
  | BadStatus nat
  | DuplicateRequest
  | StorageFailure

text \<open>How a promise ends: \<open>Fulfilled\<close> with a value or \<open>Rejected\<close> with an error.\<close>

datatype 'a settled = Fulfilled 'a | Rejected error

fun is_fulfilled :: "'a settled \<Rightarrow> bool" where
  "is_fulfilled (Fulfilled x) = True"
| "is_fulfilled (Rejected e) = False"

text \<open>
  A cache bucket keeps its entries in insertion order; the cache storage keeps its buckets
  in creation order, which is the order \<open>caches.keys()\<close> lists and \<open>caches.match\<close>
  searches them in.
\<close>

type_synonym bucket = "(request \<times> response) list"

type_synonym storage = "(string \<times> bucket) list"

text \<open>
  What the worker asks of the host, in the order it asks: a network fetch issued, an entry
  written to a bucket, a bucket deletion issued, the two host-control signals, and the
  settling of the promise handed to \<open>waitUntil\<close> or \<open>respondWith\<close> (\<open>True\<close>: fulfilled).
\<close>

datatype event =
    NetFetch request
  | CachePut string request
  | CachesDelete string
  | SkipWaiting
  | ClientsClaim
  | Settled bool

record world =
  store :: storage
  trace :: "event list"

text \<open>
  The host's side of a call that can fail: what the network answers to a request, and
  whether the storage refuses to delete a bucket.
\<close>

record host =
  net :: "request \<Rightarrow> error + response"
  delete_error :: "string \<Rightarrow> error option"

definition emit :: "event \<Rightarrow> world \<Rightarrow> world" where
  "emit ev w = w\<lparr>trace := trace w @ [ev]\<rparr>"

fun network_calls :: "event list \<Rightarrow> request list" where
  "network_calls [] = []"
| "network_calls (NetFetch r # evs) = r # network_calls evs"
| "network_calls (ev # evs) = network_calls evs"

fun delete_calls :: "event list \<Rightarrow> string list" where
  "delete_calls [] = []"
| "delete_calls (CachesDelete k # evs) = k # delete_calls evs"
| "delete_calls (ev # evs) = delete_calls evs"

text \<open>\<open>occurs_before a b evs\<close>: an \<open>a\<close> is in the trace before the first \<open>b\<close>.\<close>

definition occurs_before :: "event \<Rightarrow> event \<Rightarrow> event list \<Rightarrow> bool" where
  "occurs_before a b evs = (a \<in> set (takeWhile (\<lambda>x. x \<noteq> b) evs))"

subsection \<open>Promises\<close>

text \<open>
  Modelled from the spec: the host's promises. A promise is the work still to be done:
  run on the world, it settles and leaves the world changed. The callback given to
  \<open>then\<close> runs only once the promise before it is fulfilled, hence after the synchronous
  body of the handler that built the chain has returned; a rejection skips the callback
  and is passed on.
\<close>

type_synonym 'a promise = "world \<Rightarrow> 'a settled \<times> world"

definition resolve :: "'a \<Rightarrow> 'a promise" where
  "resolve x w = (Fulfilled x, w)"

definition then_p :: "'a promise \<Rightarrow> ('a \<Rightarrow> 'b promise) \<Rightarrow> 'b promise" where
  "then_p p f w =
     (case p w of
        (Fulfilled x, w') \<Rightarrow> f x w'
      | (Rejected e, w') \<Rightarrow> (Rejected e, w'))"

text \<open>
  Modelled from the spec: \<open>Promise.all\<close>. Every promise of the list has been started
  by the time \<open>Promise.all\<close> sees it, so each runs to its end whatever the others do;
  the result is the list of values when all are fulfilled and the first rejection
  otherwise.
\<close>

fun promise_all :: "'a promise list \<Rightarrow> 'a list promise" where
  "promise_all [] w = (Fulfilled [], w)"
| "promise_all (p # ps) w =
     (case p w of (r, w1) \<Rightarrow>
        (case promise_all ps w1 of (rs, w2) \<Rightarrow>
           (case r of
              Rejected e \<Rightarrow> (Rejected e, w2)
            | Fulfilled x \<Rightarrow>
                (case rs of
                   Rejected e \<Rightarrow> (Rejected e, w2)
                 | Fulfilled xs \<Rightarrow> (Fulfilled (x # xs), w2)))))"

subsection \<open>The host's cache storage and network\<close>

text \<open>
  Modelled from the spec: \<open>cache.open(name)\<close> "opens (creating if absent)" the bucket
  and hands back the bucket, here its name. A new bucket is the youngest.
\<close>

definition caches_open :: "string \<Rightarrow> string promise" where
  "caches_open name w =
     (Fulfilled name,
      if name \<in> set (map fst (store w)) then w
      else w\<lparr>store := store w @ [(name, [])]\<rparr>)"

text \<open>
  Modelled from the spec: storing a response "under that path's request identity". An
  entry of the same identity is replaced, the new entry is the youngest of its bucket.
\<close>

definition put_entry :: "request \<Rightarrow> response \<Rightarrow> bucket \<Rightarrow> bucket" where
  "put_entry k v b = filter (\<lambda>e. fst e \<noteq> k) b @ [(k, v)]"

definition store_put :: "string \<Rightarrow> storage \<Rightarrow> request \<times> response \<Rightarrow> storage" where
  "store_put c st kv =
     map (\<lambda>nb. if fst nb = c then (fst nb, put_entry (fst kv) (snd kv) (snd nb)) else nb) st"

text \<open>
  Modelled from the spec: an asset fetch of the bulk load. It fails when the network fails
  and when the answer is not a success (a status outside 200..299, or the partial 206),
  which \<open>addAll\<close> refuses to store.
\<close>

definition addable :: "response \<Rightarrow> bool" where
  "addable r = (200 \<le> status r \<and> status r \<le> 299 \<and> status r \<noteq> 206)"

definition fetch_asset :: "host \<Rightarrow> request \<Rightarrow> error + response" where
  "fetch_asset h p =
     (case net h p of
        Inl e \<Rightarrow> Inl e
      | Inr r \<Rightarrow> if addable r then Inr r else Inl (BadStatus (status r)))"

fun collect :: "(error + 'a) list \<Rightarrow> error + 'a list" where
  "collect [] = Inr []"
| "collect (Inl e # xs) = Inl e"
| "collect (Inr x # xs) = (case collect xs of Inl e \<Rightarrow> Inl e | Inr ys \<Rightarrow> Inr (x # ys))"

text \<open>
  Modelled from the spec: \<open>cache.addAll(paths)\<close>, the "bulk fetch+store". It issues a
  fetch for every path; "if any asset fetch fails, the whole install unit fails" and
  nothing is stored; otherwise every response is stored under its path, in the order
  of the list. Two equal paths in one call are refused.
\<close>

definition cache_addAll :: "host \<Rightarrow> string \<Rightarrow> request list \<Rightarrow> unit promise" where
  "cache_addAll h c paths w =
     (let w1 = w\<lparr>trace := trace w @ map NetFetch paths\<rparr> in
      case collect (map (fetch_asset h) paths) of
        Inl e \<Rightarrow> (Rejected e, w1)
      | Inr rs \<Rightarrow>
          if \<not> distinct paths then (Rejected DuplicateRequest, w1)
          else (Fulfilled (),
                w1\<lparr>store := foldl (store_put c) (store w1) (zip paths rs),
                   trace := trace w1 @ map (CachePut c) paths\<rparr>))"

text \<open>Modelled from the spec: \<open>cache.keys()\<close> lists the bucket names present.\<close>

definition caches_keys :: "string list promise" where
  "caches_keys w = (Fulfilled (map fst (store w)), w)"

text \<open>
  Modelled from the spec: \<open>cache.delete(name)\<close>. It answers \<open>False\<close> when there is no
  such bucket, and removes the bucket and answers \<open>True\<close> when the storage obeys. When
  the storage fails ("a stale bucket fails to delete", "the bucket name remains in the
  stale set") the bucket is left in place and the promise is rejected, which is how a
  call of the host that returns a promise fails.
\<close>

definition caches_delete :: "host \<Rightarrow> string \<Rightarrow> bool promise" where
  "caches_delete h k w =
     (let w1 = emit (CachesDelete k) w in
      if k \<notin> set (map fst (store w)) then (Fulfilled False, w1)
      else case delete_error h k of
             Some e \<Rightarrow> (Rejected e, w1)
           | None \<Rightarrow> (Fulfilled True, w1\<lparr>store := filter (\<lambda>nb. fst nb \<noteq> k) (store w1)\<rparr>))"

text \<open>
  Modelled from the spec: \<open>cache.match(request)\<close> on the whole storage "looks up the
  request identity in any open cache", oldest bucket first, and answers the first stored
  response, or nothing (JavaScript's \<open>undefined\<close>).
\<close>

fun first_match :: "request \<Rightarrow> storage \<Rightarrow> response option" where
  "first_match req [] = None"
| "first_match req (nb # rest) =
     (case map_of (snd nb) req of
        Some r \<Rightarrow> Some r
      | None \<Rightarrow> first_match req rest)"

definition caches_match :: "request \<Rightarrow> response option promise" where
  "caches_match req w = (Fulfilled (first_match req (store w)), w)"

text \<open>
  Modelled from the spec: \<open>network.fetch(request)\<close> "forwards the request to the network
  unmodified"; a network failure rejects the promise, any answer fulfils it.
\<close>

definition net_fetch :: "host \<Rightarrow> request \<Rightarrow> response promise" where
  "net_fetch h req w =
     (case net h req of Inl e \<Rightarrow> Rejected e | Inr r \<Rightarrow> Fulfilled r,
      emit (NetFetch req) w)"

text \<open>Modelled from the spec: the two host-control signals, "skip waiting" and "claim clients".\<close>

definition skipWaiting :: "world \<Rightarrow> world" where
  "skipWaiting w = emit SkipWaiting w"

definition clients_claim :: "world \<Rightarrow> world" where
  "clients_claim w = emit ClientsClaim w"

subsection \<open>The configuration and the three handlers\<close>

definition CACHE :: string where
  "CACHE = ''ghost-v1''"

definition ASSETS :: "request list" where
  "ASSETS = [''ghost.html'', ''manifest.json'', ''icon.svg'']"

text \<open>
  The synchronous body of a handler builds a promise chain, hands it to the event
  (\<open>e.waitUntil\<close>, \<open>e.respondWith\<close>) and, for install and activate, then calls
  \<open>self.skipWaiting()\<close> or \<open>self.clients.claim()\<close>, a statement of its own after
  the \<open>waitUntil\<close>, outside the chain. The handler returns the chain it handed over and
  the world as its body left it; nothing of the chain has run by then.
\<close>

definition on_install :: "host \<Rightarrow> world \<Rightarrow> unit promise \<times> world" where
  "on_install h w =
     (let unit = then_p (caches_open CACHE) (\<lambda>c. cache_addAll h c ASSETS);
          w' = skipWaiting w
      in (unit, w'))"

definition on_activate :: "host \<Rightarrow> world \<Rightarrow> bool list promise \<times> world" where
  "on_activate h w =
     (let unit = then_p caches_keys
                   (\<lambda>ks. promise_all (map (\<lambda>k. caches_delete h k) (filter (\<lambda>k. k \<noteq> CACHE) ks)));
          w' = clients_claim w
      in (unit, w'))"

definition on_fetch :: "host \<Rightarrow> request \<Rightarrow> world \<Rightarrow> response promise \<times> world" where
  "on_fetch h req w =
     (let answer = then_p (caches_match req)
                     (\<lambda>r. case r of Some resp \<Rightarrow> resolve resp | None \<Rightarrow> net_fetch h req)
      in (answer, w))"

text \<open>
  Modelled from the spec: the host holds the lifecycle event open until the promise the
  handler handed over has settled; that is the end of the unit.
\<close>

definition run_unit :: "'a promise \<times> world \<Rightarrow> 'a settled \<times> world" where
  "run_unit pw =
     (case pw of (p, w) \<Rightarrow>
        (case p w of (r, w') \<Rightarrow> (r, emit (Settled (is_fulfilled r)) w')))"

definition install :: "host \<Rightarrow> world \<Rightarrow> unit settled \<times> world" where
  "install h w = run_unit (on_install h w)"

definition activate :: "host \<Rightarrow> world \<Rightarrow> bool list settled \<times> world" where
  "activate h w = run_unit (on_activate h w)"

definition fetch :: "host \<Rightarrow> request \<Rightarrow> world \<Rightarrow> response settled \<times> world" where
  "fetch h req w = run_unit (on_fetch h req w)"

text \<open>
  Modelled from the spec: the host's view of a version, "Installing \<rightarrow> Installed(waiting)
  \<rightarrow> Active"; "transition Installing \<rightarrow> Installed requires the install unit to succeed".
\<close>

datatype version_state = Installing | Installed | Active | InstallFailed

definition after_install :: "'a settled \<Rightarrow> version_state" where
  "after_install r = (if is_fulfilled r then Installed else InstallFailed)"

subsection \<open>Derived notions\<close>

text \<open>A request identity "has a stored response in some open cache".\<close>

definition in_some_cache :: "request \<Rightarrow> storage \<Rightarrow> bool" where
  "in_some_cache req st = (\<exists>nb \<in> set st. req \<in> set (map fst (snd nb)))"

text \<open>The storage once \<open>caches.open(CACHE)\<close> has run on it.\<close>

definition opened :: "storage \<Rightarrow> storage" where
  "opened st = (if CACHE \<in> set (map fst st) then st else st @ [(CACHE, [])])"

text \<open>
  The bucket of the current generation, if there is one, holds entries under paths of the
  Asset List only. It is so on an empty storage and stays so under all three handlers.
\<close>

definition own_entries_only :: "storage \<Rightarrow> bool" where
  "own_entries_only st =
     (case map_of st CACHE of None \<Rightarrow> True | Some b \<Rightarrow> set (map fst b) \<subseteq> set ASSETS)"

subsection \<open>Concrete worlds and hosts\<close>

definition page :: "string \<Rightarrow> response" where
  "page b = \<lparr>status = 200, body = b\<rparr>"

definition net_up :: host where
  "net_up = \<lparr>net = (\<lambda>req. Inr (page req)), delete_error = (\<lambda>k. None)\<rparr>"

definition net_down :: host where
  "net_down = \<lparr>net = (\<lambda>req. Inl NetworkError), delete_error = (\<lambda>k. None)\<rparr>"

definition icon_missing :: host where
  "icon_missing =
     \<lparr>net = (\<lambda>req. if req = ''icon.svg'' then Inr \<lparr>status = 404, body = []\<rparr> else Inr (page req)),
      delete_error = (\<lambda>k. None)\<rparr>"

definition stuck_storage :: host where
  "stuck_storage =
     \<lparr>net = (\<lambda>req. Inr (page req)),
      delete_error = (\<lambda>k. if k = ''ghost-v0'' then Some StorageFailure else None)\<rparr>"

definition fresh :: world where
  "fresh = \<lparr>store = [], trace = []\<rparr>"

definition upgraded :: world where
  "upgraded =
     \<lparr>store = [(''ghost-v0'', [(''ghost.html'', page ''old'')]),
               (''ghost-v1'', [(''ghost.html'', page ''a''), (''manifest.json'', page ''b''),
                               (''icon.svg'', page ''c'')])],
      trace = []\<rparr>"

section \<open>Properties\<close>

lemma run_unit_store:
  "store (snd (run_unit (p, w))) = store (snd (p w))"
  by (simp add: run_unit_def emit_def split: prod.splits)

lemma run_unit_fst: "fst (run_unit (p, w)) = fst (p w)"
  by (simp add: run_unit_def split: prod.splits)

lemma run_unit_trace:
  "trace (snd (run_unit (p, w))) = trace (snd (p w)) @ [Settled (is_fulfilled (fst (p w)))]"
  by (simp add: run_unit_def emit_def split: prod.splits)

lemma network_calls_append:
  "network_calls (xs @ ys) = network_calls xs @ network_calls ys"
  by (induction xs rule: network_calls.induct) simp_all

lemma delete_calls_append:
  "delete_calls (xs @ ys) = delete_calls xs @ delete_calls ys"
  by (induction xs rule: delete_calls.induct) simp_all

lemma network_calls_NetFetch: "network_calls (map NetFetch ps) = ps"
  by (induction ps) simp_all

lemma network_calls_CachePut: "network_calls (map (CachePut c) ps) = []"
  by (induction ps) simp_all

lemma delete_calls_CachesDelete: "delete_calls (map CachesDelete ks) = ks"
  by (induction ks) simp_all

subsection \<open>The fetch handler\<close>

lemma fetch_fst:
  "fst (fetch h req w) =
     (case first_match req (store w) of
        Some r \<Rightarrow> Fulfilled r
      | None \<Rightarrow> (case net h req of Inl e \<Rightarrow> Rejected e | Inr r \<Rightarrow> Fulfilled r))"
  by (simp add: fetch_def on_fetch_def run_unit_fst then_p_def caches_match_def resolve_def
      net_fetch_def split: option.splits)

lemma fetch_store: "store (snd (fetch h req w)) = store w"
  by (simp add: fetch_def on_fetch_def run_unit_store then_p_def caches_match_def resolve_def
      net_fetch_def emit_def split: option.splits)

lemma fetch_network_calls:
  "network_calls (trace (snd (fetch h req w))) =
     network_calls (trace w) @ (case first_match req (store w) of Some r \<Rightarrow> [] | None \<Rightarrow> [req])"
  by (simp add: fetch_def on_fetch_def run_unit_trace then_p_def caches_match_def resolve_def
      net_fetch_def emit_def network_calls_append split: option.splits)

lemma first_match_None: "first_match req st = None \<longleftrightarrow> \<not> in_some_cache req st"
  by (induction st) (auto simp: in_some_cache_def map_of_eq_None_iff weak_map_of_SomeI
      split: option.splits dest!: map_of_SomeD intro: rev_image_eqI)

lemma first_match_stored:
  "first_match req st = Some r \<Longrightarrow> \<exists>nb \<in> set st. (req, r) \<in> set (snd nb)"
  by (induction st) (auto split: option.splits dest: map_of_SomeD)


subsection \<open>The install handler\<close>

lemma collect_map_Inr: "collect (map Inr ys) = Inr ys"
  by (induction ys) auto

lemma collect_InrD: "collect xs = Inr ys \<Longrightarrow> xs = map Inr ys"
  by (induction xs arbitrary: ys rule: collect.induct) (auto split: sum.splits)

lemma collect_Inr: "collect xs = Inr ys \<longleftrightarrow> xs = map Inr ys"
  using collect_InrD collect_map_Inr by blast

lemma collect_Inl: "Inl e \<in> set xs \<Longrightarrow> \<exists>e'. collect xs = Inl e'"
proof (induction xs)
  case Nil
  then show ?case by simp
next
  case (Cons x xs)
  then show ?case by (cases x) (auto split: sum.splits)
qed

lemma fetch_asset_Inr: "fetch_asset h p = Inr r \<longleftrightarrow> net h p = Inr r \<and> addable r"
  by (auto simp: fetch_asset_def split: sum.splits)


lemma install_fst:
  "fst (install h w) =
     (case collect (map (fetch_asset h) ASSETS) of Inl e \<Rightarrow> Rejected e | Inr rs \<Rightarrow> Fulfilled ())"
  by (simp add: install_def on_install_def run_unit_fst then_p_def caches_open_def
      cache_addAll_def skipWaiting_def emit_def ASSETS_def Let_def split: sum.splits)

lemma install_store:
  "store (snd (install h w)) =
     (case collect (map (fetch_asset h) ASSETS) of
        Inl e \<Rightarrow> opened (store w)
      | Inr rs \<Rightarrow> foldl (store_put CACHE) (opened (store w)) (zip ASSETS rs))"
  by (simp add: install_def on_install_def run_unit_store then_p_def caches_open_def
      cache_addAll_def skipWaiting_def emit_def ASSETS_def Let_def opened_def split: sum.splits)

lemma install_trace:
  "trace (snd (install h w)) =
     trace w @ [SkipWaiting] @ map NetFetch ASSETS @
     (if is_fulfilled (fst (install h w)) then map (CachePut CACHE) ASSETS else []) @
     [Settled (is_fulfilled (fst (install h w)))]"
  by (simp add: install_def on_install_def run_unit_trace run_unit_fst then_p_def caches_open_def
      cache_addAll_def skipWaiting_def emit_def ASSETS_def Let_def split: sum.splits)

lemma foldl_store_put:
  "foldl (store_put c) st kvs =
     map (\<lambda>nb. if fst nb = c
                then (fst nb, foldl (\<lambda>b kv. put_entry (fst kv) (snd kv) b) (snd nb) kvs)
                else nb) st"
proof (induction kvs arbitrary: st)
  case Nil
  show ?case by (induction st) auto
next
  case (Cons kv kvs)
  have "foldl (store_put c) st (kv # kvs) = foldl (store_put c) (store_put c st kv) kvs"
    by simp
  also have "\<dots> =
      map (\<lambda>nb. if fst nb = c
                 then (fst nb, foldl (\<lambda>b kv. put_entry (fst kv) (snd kv) b) (snd nb) kvs)
                 else nb) (store_put c st kv)"
    by (rule Cons.IH)
  also have "\<dots> =
      map (\<lambda>nb. if fst nb = c
                 then (fst nb, foldl (\<lambda>b kv. put_entry (fst kv) (snd kv) b) (snd nb) (kv # kvs))
                 else nb) st"
    by (simp add: store_put_def)
  finally show ?case .
qed

lemma foldl_put_entry:
  "distinct (map fst kvs) \<Longrightarrow>
   foldl (\<lambda>b kv. put_entry (fst kv) (snd kv) b) b kvs =
     filter (\<lambda>e. fst e \<notin> set (map fst kvs)) b @ kvs"
proof (induction kvs arbitrary: b)
  case Nil
  show ?case by simp
next
  case (Cons kv kvs)
  then show ?case
    by (cases kv) (auto simp: put_entry_def intro: filter_cong)
qed

lemma map_of_map_named:
  "map_of (map (\<lambda>nb. if fst nb = c then (fst nb, f nb) else nb) st) c =
     map_option (\<lambda>b. f (c, b)) (map_of st c)"
  by (induction st) auto

lemma filter_map_named:
  "filter (\<lambda>nb. fst nb \<noteq> c) (map (\<lambda>nb. if fst nb = c then (fst nb, f nb) else nb) st) =
     filter (\<lambda>nb. fst nb \<noteq> c) st"
  by (induction st) auto

lemma map_fst_map_named:
  "map fst (map (\<lambda>nb. if fst nb = c then (fst nb, f nb) else nb) st) = map fst st"
  by (induction st) auto

lemma map_of_opened:
  "map_of (opened st) CACHE = Some (case map_of st CACHE of None \<Rightarrow> [] | Some b \<Rightarrow> b)"
  by (auto simp: opened_def map_add_def map_of_eq_None_iff[symmetric] split: option.splits)

lemma filter_opened:
  "filter (\<lambda>nb. fst nb \<noteq> CACHE) (opened st) = filter (\<lambda>nb. fst nb \<noteq> CACHE) st"
  by (simp add: opened_def)


lemma names_foldl_store_put: "map fst (foldl (store_put c) st kvs) = map fst st"
  by (simp only: foldl_store_put map_fst_map_named)

lemma install_names: "map fst (store (snd (install h w))) = map fst (opened (store w))"
  by (simp add: install_store names_foldl_store_put split: sum.splits)

subsection \<open>The activate handler\<close>

lemma promise_all_snd:
  "snd (promise_all (p # ps) w) = snd (promise_all ps (snd (p w)))"
  by (simp split: prod.splits settled.splits)

lemma promise_all_fulfilled:
  "is_fulfilled (fst (promise_all (p # ps) w)) \<longleftrightarrow>
     is_fulfilled (fst (p w)) \<and> is_fulfilled (fst (promise_all ps (snd (p w))))"
  by (simp split: prod.splits settled.splits)

lemma caches_delete_store:
  "store (snd (caches_delete h k w)) =
     filter (\<lambda>nb. fst nb \<noteq> k \<or> delete_error h k \<noteq> None) (store w)"
proof -
  have absent: "k \<notin> set (map fst st) \<Longrightarrow> filter (\<lambda>nb. fst nb \<noteq> k) st = st" for st :: storage
    by (induction st) auto
  show ?thesis
    by (auto simp: caches_delete_def emit_def Let_def absent split: option.splits)
qed

lemma caches_delete_trace:
  "trace (snd (caches_delete h k w)) = trace w @ [CachesDelete k]"
  by (simp add: caches_delete_def emit_def Let_def split: option.splits)

lemma caches_delete_fulfilled:
  "is_fulfilled (fst (caches_delete h k w)) \<longleftrightarrow>
     (k \<in> set (map fst (store w)) \<longrightarrow> delete_error h k = None)"
  by (auto simp: caches_delete_def Let_def split: option.splits)

lemma delete_all_store:
  "store (snd (promise_all (map (\<lambda>k. caches_delete h k) ks) w)) =
     filter (\<lambda>nb. fst nb \<notin> set ks \<or> delete_error h (fst nb) \<noteq> None) (store w)"
proof (induction ks arbitrary: w)
  case Nil
  show ?case by simp
next
  case (Cons k ks)
  show ?case
    unfolding list.map promise_all_snd Cons.IH caches_delete_store
    by (auto intro: filter_cong)
qed

lemma delete_all_trace:
  "trace (snd (promise_all (map (\<lambda>k. caches_delete h k) ks) w)) = trace w @ map CachesDelete ks"
proof (induction ks arbitrary: w)
  case Nil
  show ?case by simp
next
  case (Cons k ks)
  show ?case
    unfolding list.map promise_all_snd Cons.IH caches_delete_trace by simp
qed

lemma delete_all_fulfilled:
  "is_fulfilled (fst (promise_all (map (\<lambda>k. caches_delete h k) ks) w)) \<longleftrightarrow>
     (\<forall>k \<in> set ks. k \<in> set (map fst (store w)) \<longrightarrow> delete_error h k = None)"
proof (induction ks arbitrary: w)
  case Nil
  show ?case by simp
next
  case (Cons k ks)
  show ?case
    unfolding list.map promise_all_fulfilled Cons.IH caches_delete_store caches_delete_fulfilled
    by auto
qed

lemma activate_store:
  "store (snd (activate h w)) =
     filter (\<lambda>nb. fst nb = CACHE \<or> delete_error h (fst nb) \<noteq> None) (store w)"
  by (auto simp: activate_def on_activate_def run_unit_store then_p_def caches_keys_def
      clients_claim_def emit_def delete_all_store Let_def intro: filter_cong)

lemma activate_trace:
  "trace (snd (activate h w)) =
     trace w @ [ClientsClaim] @ map CachesDelete (filter (\<lambda>k. k \<noteq> CACHE) (map fst (store w))) @
     [Settled (is_fulfilled (fst (activate h w)))]"
  by (simp add: activate_def on_activate_def run_unit_trace run_unit_fst then_p_def caches_keys_def
      clients_claim_def emit_def delete_all_trace Let_def)

lemma activate_fulfilled:
  "is_fulfilled (fst (activate h w)) \<longleftrightarrow>
     (\<forall>k \<in> set (map fst (store w)). k \<noteq> CACHE \<longrightarrow> delete_error h k = None)"
  by (auto simp: activate_def on_activate_def run_unit_fst then_p_def caches_keys_def
      clients_claim_def emit_def delete_all_fulfilled Let_def)


subsection \<open>The claims\<close>

lemma install_bucket:
  assumes "collect (map (fetch_asset h) ASSETS) = Inr rs"
  shows "map_of (store (snd (install h w))) CACHE =
           Some (filter (\<lambda>e. fst e \<notin> set ASSETS)
                   (case map_of (store w) CACHE of None \<Rightarrow> [] | Some b \<Rightarrow> b) @ zip ASSETS rs)"
proof -
  have len: "length rs = length ASSETS"
    using assms by (auto simp: collect_Inr dest: arg_cong [where f = length])
  have keys: "map fst (zip ASSETS rs) = ASSETS"
    using len by simp
  have dist: "distinct (map fst (zip ASSETS rs))"
    unfolding keys by (simp add: ASSETS_def)
  show ?thesis
    by (simp add: install_store assms foldl_store_put map_of_map_named map_of_opened
        foldl_put_entry [OF dist] keys)
qed

lemma own_entries_only_fresh: "own_entries_only (store fresh)"
  by (simp add: own_entries_only_def fresh_def)

lemma own_entries_only_fetch:
  "own_entries_only (store w) \<Longrightarrow> own_entries_only (store (snd (fetch h req w)))"
  by (simp add: fetch_store)

lemma map_of_filter_current:
  "map_of (filter (\<lambda>nb. fst nb = c \<or> P nb) st) c = map_of st c"
  by (induction st) auto

lemma own_entries_only_activate:
  "own_entries_only (store w) \<Longrightarrow> own_entries_only (store (snd (activate h w)))"
  by (simp add: own_entries_only_def activate_store map_of_filter_current)

lemma own_entries_only_install:
  "own_entries_only (store w) \<Longrightarrow> own_entries_only (store (snd (install h w)))"
proof (cases "collect (map (fetch_asset h) ASSETS)")
  case (Inl e)
  assume "own_entries_only (store w)"
  then show ?thesis
    by (simp add: own_entries_only_def install_store Inl map_of_opened split: option.splits)
next
  case (Inr rs)
  have len: "length rs = length ASSETS"
    using Inr by (auto simp: collect_Inr dest: arg_cong [where f = length])
  assume "own_entries_only (store w)"
  then show ?thesis
    using len by (auto simp: own_entries_only_def install_bucket [OF Inr] split: option.splits)
qed

text \<open>
  C1: a request whose identity has a stored response in some open cache is answered with
  a stored response (the one of the oldest bucket that holds it) and the network is not
  asked; after a successful install every path of the Asset List is such a request.
\<close>

theorem fetch_hit_served_from_cache:
  "(in_some_cache req (store w) \<longrightarrow>
      (\<exists>r. fst (fetch h req w) = Fulfilled r \<and>
           (\<exists>nb \<in> set (store w). (req, r) \<in> set (snd nb)) \<and>
           network_calls (trace (snd (fetch h req w))) = network_calls (trace w))) \<and>
   (is_fulfilled (fst (install h0 w0)) \<and> p \<in> set ASSETS \<longrightarrow>
      in_some_cache p (store (snd (install h0 w0))) \<and>
      (\<exists>r. fst (fetch h p (snd (install h0 w0))) = Fulfilled r \<and>
           network_calls (trace (snd (fetch h p (snd (install h0 w0))))) =
             network_calls (trace (snd (install h0 w0)))))"
proof -
  have hit: "\<exists>r. fst (fetch h req w) = Fulfilled r \<and>
           (\<exists>nb \<in> set (store w). (req, r) \<in> set (snd nb)) \<and>
           network_calls (trace (snd (fetch h req w))) = network_calls (trace w)"
    if "in_some_cache req (store w)" for req w
  proof -
    from that obtain r where r: "first_match req (store w) = Some r"
      using first_match_None [of req "store w"] by auto
    show ?thesis
      using r first_match_stored [OF r] by (simp add: fetch_fst fetch_network_calls)
  qed
  have warm: "in_some_cache p (store (snd (install h0 w0)))"
    if ok: "is_fulfilled (fst (install h0 w0))" and p: "p \<in> set ASSETS"
  proof -
    from ok obtain rs where rs: "collect (map (fetch_asset h0) ASSETS) = Inr rs"
      by (auto simp: install_fst split: sum.splits)
    have len: "length rs = length ASSETS"
      using rs by (auto simp: collect_Inr dest: arg_cong [where f = length])
    let ?b = "filter (\<lambda>e. fst e \<notin> set ASSETS)
                (case map_of (store w0) CACHE of None \<Rightarrow> [] | Some b \<Rightarrow> b) @ zip ASSETS rs"
    have "(CACHE, ?b) \<in> set (store (snd (install h0 w0)))"
      using install_bucket [OF rs, of w0] by (rule map_of_SomeD)
    moreover have "p \<in> set (map fst ?b)"
      using p len by simp
    ultimately show ?thesis
      unfolding in_some_cache_def by force
  qed
  show ?thesis
    using hit warm by blast
qed

theorem fetch_hit_served_from_cache_witness:
  "in_some_cache ''icon.svg'' (store upgraded) \<and>
   fst (fetch net_down ''icon.svg'' upgraded) = Fulfilled (page ''c'') \<and>
   network_calls (trace (snd (fetch net_down ''icon.svg'' upgraded))) = network_calls (trace upgraded) \<and>
   is_fulfilled (fst (install net_up fresh)) \<and> ''manifest.json'' \<in> set ASSETS \<and>
   in_some_cache ''manifest.json'' (store (snd (install net_up fresh))) \<and>
   network_calls (trace (snd (fetch net_down ''manifest.json'' (snd (install net_up fresh))))) =
     network_calls (trace (snd (install net_up fresh)))"
proof -
  have h1: "in_some_cache ''icon.svg'' (store upgraded)"
    by (simp add: in_some_cache_def upgraded_def)
  have h2: "is_fulfilled (fst (install net_up fresh)) \<and> ''manifest.json'' \<in> set ASSETS"
    by code_simp
  have r: "fst (fetch net_down ''icon.svg'' upgraded) = Fulfilled (page ''c'')"
    by code_simp
  show ?thesis
    using h1 h2 r
      fetch_hit_served_from_cache [of "''icon.svg''" upgraded net_down net_up fresh "''manifest.json''"]
    by blast
qed

text \<open>
  C2: a request whose identity no open cache holds is forwarded to the network exactly
  once, and the outcome of the fetch is the network's: its response, whatever the status,
  or its failure.
\<close>

theorem fetch_miss_asks_network_once:
  "\<not> in_some_cache req (store w) \<Longrightarrow>
   fst (fetch h req w) = (case net h req of Inl e \<Rightarrow> Rejected e | Inr r \<Rightarrow> Fulfilled r) \<and>
   network_calls (trace (snd (fetch h req w))) = network_calls (trace w) @ [req]"
  by (simp add: fetch_fst fetch_network_calls first_match_None [symmetric])

theorem fetch_miss_asks_network_once_witness:
  "\<not> in_some_cache ''other.png'' (store upgraded) \<and>
   fst (fetch net_down ''other.png'' upgraded) = Rejected NetworkError \<and>
   fst (fetch icon_missing ''icon.svg'' fresh) = Fulfilled \<lparr>status = 404, body = []\<rparr> \<and>
   network_calls (trace (snd (fetch net_down ''other.png'' upgraded))) = [''other.png'']"
proof -
  have h1: "\<not> in_some_cache ''other.png'' (store upgraded)"
    by (simp add: in_some_cache_def upgraded_def)
  have h2: "\<not> in_some_cache ''icon.svg'' (store fresh)"
    by (simp add: in_some_cache_def fresh_def)
  have n1: "net net_down ''other.png'' = Inl NetworkError"
    by (simp add: net_down_def)
  have n2: "net icon_missing ''icon.svg'' = Inr \<lparr>status = 404, body = []\<rparr>"
    by (simp add: icon_missing_def)
  have t: "trace upgraded = []"
    by (simp add: upgraded_def)
  show ?thesis
    using h1 fetch_miss_asks_network_once [OF h1, of net_down]
      fetch_miss_asks_network_once [OF h2, of icon_missing]
    by (simp add: n1 n2 t)
qed

text \<open>
  C3: install opens the bucket of the current generation tag and issues one network fetch
  for every path of the Asset List, in the order of the list. When the install succeeds,
  on a storage whose bucket "ghost-v1" is absent or held entries under paths of the Asset
  List only, that bucket holds exactly three entries, keyed "ghost.html", "manifest.json"
  and "icon.svg", each with the response the network gave for its path.
\<close>

theorem install_fills_bucket:
  "CACHE \<in> set (map fst (store (snd (install h w)))) \<and>
   network_calls (trace (snd (install h w))) = network_calls (trace w) @ ASSETS \<and>
   (is_fulfilled (fst (install h w)) \<and>
    own_entries_only (store w) \<longrightarrow>
    (\<exists>r1 r2 r3.
       net h ''ghost.html'' = Inr r1 \<and> net h ''manifest.json'' = Inr r2 \<and>
       net h ''icon.svg'' = Inr r3 \<and>
       map_of (store (snd (install h w))) ''ghost-v1'' =
         Some [(''ghost.html'', r1), (''manifest.json'', r2), (''icon.svg'', r3)]))"
proof -
  have names: "CACHE \<in> set (map fst (store (snd (install h w))))"
    unfolding install_names by (simp add: opened_def)
  have calls: "network_calls (trace (snd (install h w))) = network_calls (trace w) @ ASSETS"
    by (simp add: install_trace network_calls_append network_calls_NetFetch
        network_calls_CachePut)
  have filled: "\<exists>r1 r2 r3.
       net h ''ghost.html'' = Inr r1 \<and> net h ''manifest.json'' = Inr r2 \<and>
       net h ''icon.svg'' = Inr r3 \<and>
       map_of (store (snd (install h w))) ''ghost-v1'' =
         Some [(''ghost.html'', r1), (''manifest.json'', r2), (''icon.svg'', r3)]"
    if ok: "is_fulfilled (fst (install h w))"
      and own: "own_entries_only (store w)"
  proof -
    from ok obtain rs where rs: "collect (map (fetch_asset h) ASSETS) = Inr rs"
      by (auto simp: install_fst split: sum.splits)
    then have "map (fetch_asset h) ASSETS = map Inr rs"
      by (simp add: collect_Inr)
    then obtain r1 r2 r3 where rs3: "rs = [r1, r2, r3]"
      and f: "fetch_asset h ''ghost.html'' = Inr r1" "fetch_asset h ''manifest.json'' = Inr r2"
        "fetch_asset h ''icon.svg'' = Inr r3"
      by (auto simp: ASSETS_def map_eq_Cons_conv)
    have none: "filter (\<lambda>e. fst e \<notin> set ASSETS)
                 (case map_of (store w) CACHE of None \<Rightarrow> [] | Some b \<Rightarrow> b) = []"
      using own by (auto simp: own_entries_only_def filter_empty_conv split: option.splits)
    have "map_of (store (snd (install h w))) CACHE = Some (zip ASSETS rs)"
      using install_bucket [OF rs, of w] by (simp add: none)
    then show ?thesis
      using f by (auto simp: rs3 ASSETS_def CACHE_def fetch_asset_Inr)
  qed
  show ?thesis
    using names calls filled by blast
qed

theorem install_fills_bucket_witness:
  "is_fulfilled (fst (install net_up upgraded)) \<and>
   own_entries_only (store upgraded) \<and>
   map_of (store (snd (install net_up upgraded))) ''ghost-v1'' =
     Some [(''ghost.html'', page ''ghost.html''), (''manifest.json'', page ''manifest.json''),
           (''icon.svg'', page ''icon.svg'')] \<and>
   network_calls (trace (snd (install net_up upgraded))) = ASSETS"
proof -
  have h1: "is_fulfilled (fst (install net_up upgraded))"
    by code_simp
  have h2: "own_entries_only (store upgraded)"
    by (simp add: own_entries_only_def upgraded_def CACHE_def ASSETS_def)
  have n: "net net_up p = Inr (page p)" for p
    by (simp add: net_up_def)
  have t: "trace upgraded = []"
    by (simp add: upgraded_def)
  show ?thesis
    using h1 h2 install_fills_bucket [of net_up upgraded]
    by (auto simp: n t)
qed


text \<open>
  C4: activate removes the buckets whose name differs from the current generation tag
  (all of them, unless the storage fails to delete one) and no other. When activate
  completes with success on a storage that holds the current generation's bucket, as
  every storage does once install has run on it, the set of bucket names is exactly the
  current generation tag. Activating again leaves the current generation's bucket as it
  was.
\<close>

theorem activate_evicts_stale_buckets:
  "store (snd (activate h w)) =
     filter (\<lambda>nb. fst nb = CACHE \<or> delete_error h (fst nb) \<noteq> None) (store w) \<and>
   (is_fulfilled (fst (activate h w)) \<and> CACHE \<in> set (map fst (store w)) \<longrightarrow>
      set (map fst (store (snd (activate h w)))) = {CACHE}) \<and>
   (is_fulfilled (fst (activate h (snd (install hi w)))) \<longrightarrow>
      set (map fst (store (snd (activate h (snd (install hi w)))))) = {CACHE}) \<and>
   filter (\<lambda>nb. fst nb = CACHE) (store (snd (activate h' (snd (activate h w))))) =
     filter (\<lambda>nb. fst nb = CACHE) (store w)"
proof -
  have names: "set (map fst (store (snd (activate h v)))) = {CACHE}"
    if ok: "is_fulfilled (fst (activate h v))" and cur: "CACHE \<in> set (map fst (store v))"
    for v
  proof -
    have "filter (\<lambda>nb. fst nb = CACHE \<or> delete_error h (fst nb) \<noteq> None) (store v) =
          filter (\<lambda>nb. fst nb = CACHE) (store v)"
      using ok by (intro filter_cong) (auto simp: activate_fulfilled)
    then show ?thesis
      using cur by (auto simp: activate_store)
  qed
  have installed: "CACHE \<in> set (map fst (store (snd (install hi w))))"
    unfolding install_names by (simp add: opened_def)
  have twice: "filter (\<lambda>nb. fst nb = CACHE) (store (snd (activate h' (snd (activate h w))))) =
     filter (\<lambda>nb. fst nb = CACHE) (store w)"
    unfolding activate_store filter_filter by (rule filter_cong) auto
  show ?thesis
    using names [of w] names [of "snd (install hi w)"] installed twice activate_store by blast
qed

theorem activate_evicts_stale_buckets_witness:
  "is_fulfilled (fst (activate net_up upgraded)) \<and> CACHE \<in> set (map fst (store upgraded)) \<and>
   set (map fst (store (snd (activate net_up upgraded)))) = {CACHE} \<and>
   is_fulfilled (fst (activate net_up (snd (install net_down upgraded)))) \<and>
   set (map fst (store (snd (activate net_up (snd (install net_down upgraded)))))) = {CACHE} \<and>
   filter (\<lambda>nb. fst nb = CACHE) (store (snd (activate net_up (snd (activate net_up upgraded))))) =
     filter (\<lambda>nb. fst nb = CACHE) (store upgraded)"
proof -
  have h1: "is_fulfilled (fst (activate net_up upgraded))"
    by code_simp
  have h2: "CACHE \<in> set (map fst (store upgraded))"
    by (simp add: upgraded_def CACHE_def)
  have h3: "is_fulfilled (fst (activate net_up (snd (install net_down upgraded))))"
    by code_simp
  show ?thesis
    using h1 h2 h3 activate_evicts_stale_buckets [of net_up upgraded net_down net_up] by blast
qed

text \<open>
  C5: when the fetch of one asset fails during install, by a network failure or by an
  answer that is not a success, the install unit is rejected, whatever the other assets
  do, and the host does not take the version as installed.
\<close>

theorem install_fails_on_asset_failure:
  "p \<in> set ASSETS \<Longrightarrow> fetch_asset h p = Inl e \<Longrightarrow>
   (\<exists>e'. fst (install h w) = Rejected e') \<and>
   after_install (fst (install h w)) = InstallFailed"
proof -
  assume "p \<in> set ASSETS" and "fetch_asset h p = Inl e"
  then have "Inl e \<in> set (map (fetch_asset h) ASSETS)"
    by force
  then obtain e' where "collect (map (fetch_asset h) ASSETS) = Inl e'"
    using collect_Inl by blast
  then show ?thesis
    by (simp add: install_fst after_install_def)
qed

theorem install_fails_on_asset_failure_witness:
  "''icon.svg'' \<in> set ASSETS \<and> fetch_asset icon_missing ''icon.svg'' = Inl (BadStatus 404) \<and>
   (\<exists>e'. fst (install icon_missing fresh) = Rejected e') \<and>
   after_install (fst (install icon_missing fresh)) = InstallFailed"
proof -
  have h1: "''icon.svg'' \<in> set ASSETS"
    by (simp add: ASSETS_def)
  have h2: "fetch_asset icon_missing ''icon.svg'' = Inl (BadStatus 404)"
    by (simp add: fetch_asset_def icon_missing_def addable_def)
  show ?thesis
    using h1 h2 install_fails_on_asset_failure [OF h1 h2, of fresh] by blast
qed


text \<open>
  C6, as the claim states it, fails: on a fresh storage with the network up, no settling
  of the install unit comes before the skip-waiting signal, which is out before the first
  asset is fetched; and on a storage with a stale bucket the claim-clients signal is out
  before the deletion of that bucket is issued, not after it.
\<close>

theorem signals_after_units_counterexample:
  "\<not> occurs_before (Settled True) SkipWaiting (trace (snd (install net_up fresh))) \<and>
   \<not> occurs_before (Settled False) SkipWaiting (trace (snd (install net_up fresh))) \<and>
   occurs_before SkipWaiting (NetFetch ''ghost.html'') (trace (snd (install net_up fresh))) \<and>
   occurs_before SkipWaiting (Settled True) (trace (snd (install net_up fresh))) \<and>
   \<not> occurs_before (CachesDelete ''ghost-v0'') ClientsClaim (trace (snd (activate net_up upgraded))) \<and>
   occurs_before ClientsClaim (CachesDelete ''ghost-v0'') (trace (snd (activate net_up upgraded)))"
  by code_simp

text \<open>
  C6, amended: each handler emits its signal in its synchronous body, right after handing
  its unit to the host and before the unit does anything. The skip-waiting signal comes
  before every asset fetch, every store and the settling of the install unit; the
  claim-clients signal comes before every stale-bucket deletion and the settling of the
  activate unit.
\<close>

theorem signals_emitted_before_units:
  "trace (snd (install h w)) =
     trace w @ [SkipWaiting] @ map NetFetch ASSETS @
     (if is_fulfilled (fst (install h w)) then map (CachePut CACHE) ASSETS else []) @
     [Settled (is_fulfilled (fst (install h w)))] \<and>
   trace (snd (activate h w)) =
     trace w @ [ClientsClaim] @
     map CachesDelete (filter (\<lambda>k. k \<noteq> CACHE) (map fst (store w))) @
     [Settled (is_fulfilled (fst (activate h w)))]"
  using install_trace activate_trace by blast

theorem signals_emitted_before_units_witness:
  "trace (snd (install net_up fresh)) =
     [SkipWaiting, NetFetch ''ghost.html'', NetFetch ''manifest.json'', NetFetch ''icon.svg'',
      CachePut ''ghost-v1'' ''ghost.html'', CachePut ''ghost-v1'' ''manifest.json'',
      CachePut ''ghost-v1'' ''icon.svg'', Settled True] \<and>
   trace (snd (activate net_up upgraded)) = [ClientsClaim, CachesDelete ''ghost-v0'', Settled True]"
proof -
  have i: "is_fulfilled (fst (install net_up fresh))"
    by code_simp
  have a: "is_fulfilled (fst (activate net_up upgraded))"
    by code_simp
  have tf: "trace fresh = []"
    by (simp add: fresh_def)
  have tu: "trace upgraded = []"
    by (simp add: upgraded_def)
  have st: "filter (\<lambda>k. k \<noteq> ''ghost-v1'') (map fst (store upgraded)) = [''ghost-v0'']"
    by (simp add: upgraded_def)
  show ?thesis
    using signals_emitted_before_units [of net_up fresh] signals_emitted_before_units [of net_up upgraded]
    by (simp add: i a tf tu st ASSETS_def CACHE_def)
qed

text \<open>
  C7, as the claim states it, fails: with a storage that fails to delete the stale bucket
  "ghost-v0" the activate unit is rejected with the storage's error, where the same
  activation with a storage that obeys is fulfilled. The failure reaches the host through
  the promise handed to \<open>waitUntil\<close>, as an install failure does.
\<close>

theorem delete_failure_counterexample:
  "delete_error stuck_storage ''ghost-v0'' = Some StorageFailure \<and>
   fst (activate stuck_storage upgraded) = Rejected StorageFailure \<and>
   \<not> is_fulfilled (fst (activate stuck_storage upgraded)) \<and>
   fst (activate net_up upgraded) = Fulfilled [True]"
  by code_simp

text \<open>
  C7, amended: the activate unit neither retries nor catches a bucket-deletion failure.
  Whatever fails, it issues one deletion for every stale bucket and the claim-clients
  signal is sent; a bucket the storage failed to delete stays in the storage. The unit is
  fulfilled exactly when no deletion of a stale bucket failed: a failure rejects it.
\<close>

theorem delete_failure_rejects_activate:
  "delete_calls (trace (snd (activate h w))) =
     delete_calls (trace w) @ filter (\<lambda>k. k \<noteq> CACHE) (map fst (store w)) \<and>
   ClientsClaim \<in> set (trace (snd (activate h w))) \<and>
   (is_fulfilled (fst (activate h w)) \<longleftrightarrow>
      (\<forall>k \<in> set (map fst (store w)). k \<noteq> CACHE \<longrightarrow> delete_error h k = None)) \<and>
   (\<forall>nb \<in> set (store w). delete_error h (fst nb) \<noteq> None \<longrightarrow>
      nb \<in> set (store (snd (activate h w))))"
proof -
  have calls: "delete_calls (trace (snd (activate h w))) =
     delete_calls (trace w) @ filter (\<lambda>k. k \<noteq> CACHE) (map fst (store w))"
    by (simp add: activate_trace delete_calls_append delete_calls_CachesDelete)
  have claim: "ClientsClaim \<in> set (trace (snd (activate h w)))"
    by (simp add: activate_trace)
  have kept: "\<forall>nb \<in> set (store w). delete_error h (fst nb) \<noteq> None \<longrightarrow>
      nb \<in> set (store (snd (activate h w)))"
    by (simp add: activate_store)
  show ?thesis
    using calls claim kept activate_fulfilled by blast
qed

theorem delete_failure_rejects_activate_witness:
  "delete_error stuck_storage ''ghost-v0'' \<noteq> None \<and>
   (''ghost-v0'', [(''ghost.html'', page ''old'')]) \<in> set (store upgraded) \<and>
   (''ghost-v0'', [(''ghost.html'', page ''old'')]) \<in> set (store (snd (activate stuck_storage upgraded))) \<and>
   \<not> is_fulfilled (fst (activate stuck_storage upgraded)) \<and>
   delete_calls (trace (snd (activate stuck_storage upgraded))) = [''ghost-v0'']"
proof -
  have h1: "delete_error stuck_storage ''ghost-v0'' \<noteq> None"
    by (simp add: stuck_storage_def)
  have h2: "(''ghost-v0'', [(''ghost.html'', page ''old'')]) \<in> set (store upgraded)"
    by (simp add: upgraded_def)
  have h3: "''ghost-v0'' \<in> set (map fst (store upgraded)) \<and> ''ghost-v0'' \<noteq> CACHE"
    by (simp add: upgraded_def CACHE_def)
  have c: "delete_calls (trace upgraded) @ filter (\<lambda>k. k \<noteq> CACHE) (map fst (store upgraded)) =
           [''ghost-v0'']"
    by (simp add: upgraded_def CACHE_def)
  show ?thesis
    using h1 h2 h3 c delete_failure_rejects_activate [of stuck_storage upgraded]
    by fastforce
qed

text \<open>
  C8: the fetch operation leaves the cache storage exactly as it found it, on a cache hit
  and on a network fallback alike: a response of the network is not written to any
  bucket. Activate adds nothing either, so an entry of the storage comes from install's
  bulk fetch only.
\<close>

theorem fetch_never_writes_cache:
  "store (snd (fetch h req w)) = store w \<and>
   set (store (snd (activate h w))) \<subseteq> set (store w)"
  by (simp add: fetch_store activate_store)

theorem fetch_never_writes_cache_witness:
  "fst (fetch net_up ''other.png'' upgraded) = Fulfilled (page ''other.png'') \<and>
   store (snd (fetch net_up ''other.png'' upgraded)) = store upgraded"
proof -
  have r: "fst (fetch net_up ''other.png'' upgraded) = Fulfilled (page ''other.png'')"
    by code_simp
  show ?thesis
    using r fetch_never_writes_cache [of net_up "''other.png''" upgraded] by blast
qed

text \<open>
  C9: the install handler emits the skip-waiting signal in its synchronous body, before
  its unit has run and whatever the unit will come to: when the install unit settles,
  fulfilled or rejected, the signal is already in the trace.
\<close>

theorem skip_waiting_unconditional:
  "snd (on_install h w) = emit SkipWaiting w \<and>
   (\<exists>rest. trace (snd (install h w)) =
      trace w @ SkipWaiting # rest @ [Settled (is_fulfilled (fst (install h w)))])"
  by (simp add: on_install_def skipWaiting_def install_trace)

theorem skip_waiting_unconditional_witness:
  "\<not> is_fulfilled (fst (install net_down fresh)) \<and>
   (\<exists>rest. trace (snd (install net_down fresh)) = SkipWaiting # rest @ [Settled False])"
proof -
  have f: "\<not> is_fulfilled (fst (install net_down fresh))"
    by code_simp
  have t: "trace fresh = []"
    by (simp add: fresh_def)
  show ?thesis
    using f skip_waiting_unconditional [of net_down fresh] by (simp add: t)
qed

text \<open>
  C10: install leaves every bucket whose name differs from the current generation tag as
  it was, the bucket and its entries, in the same order, and takes no bucket away; nor
  does fetch. Activate is the one operation that removes buckets.
\<close>

theorem install_keeps_other_buckets:
  "filter (\<lambda>nb. fst nb \<noteq> CACHE) (store (snd (install h w))) =
     filter (\<lambda>nb. fst nb \<noteq> CACHE) (store w) \<and>
   set (map fst (store w)) \<subseteq> set (map fst (store (snd (install h w)))) \<and>
   map fst (store (snd (fetch h req w))) = map fst (store w)"
proof -
  have others: "filter (\<lambda>nb. fst nb \<noteq> CACHE) (store (snd (install h w))) =
     filter (\<lambda>nb. fst nb \<noteq> CACHE) (store w)"
    by (simp add: install_store foldl_store_put filter_map_named filter_opened split: sum.splits)
  have names: "set (map fst (store w)) \<subseteq> set (map fst (store (snd (install h w))))"
    unfolding install_names by (auto simp: opened_def)
  show ?thesis
    using others names by (simp add: fetch_store)
qed

theorem install_keeps_other_buckets_witness:
  "map_of (store (snd (install net_up upgraded))) ''ghost-v0'' = Some [(''ghost.html'', page ''old'')] \<and>
   map_of (store (snd (install net_down upgraded))) ''ghost-v0'' = Some [(''ghost.html'', page ''old'')]"
proof -
  have f: "filter (\<lambda>nb. fst nb \<noteq> CACHE) (store upgraded) = [(''ghost-v0'', [(''ghost.html'', page ''old'')])]"
    by (simp add: upgraded_def CACHE_def)
  have m: "map_of st ''ghost-v0'' = map_of (filter (\<lambda>nb. fst nb \<noteq> CACHE) st) ''ghost-v0''"
    for st :: storage
    by (induction st) (auto simp: CACHE_def)
  show ?thesis
    using install_keeps_other_buckets [of net_up upgraded] install_keeps_other_buckets [of net_down upgraded]
    by (simp add: m [of "store (snd (install net_up upgraded))"]
        m [of "store (snd (install net_down upgraded))"] f)
qed

end
